theory Spec2Isabelle
  imports Main
begin

section \<open>SenseiLua analyzer: data model\<close>

text \<open>
  A shallow embedding of \<^verbatim>\<open>src/sensei_lua/analyzer.py\<close>. A Python \<^verbatim>\<open>str\<close> is a
  \<^typ>\<open>string\<close>: a list of characters, each standing for the code point of the same
  number (code points below 256). Python's unbounded integers are \<^typ>\<open>int\<close>.
\<close>

abbreviation SP :: char where "SP \<equiv> CHR '' ''"
abbreviation TAB :: char where "TAB \<equiv> CHR 0x09"
abbreviation LF :: char where "LF \<equiv> CHR 0x0A"
abbreviation CR :: char where "CR \<equiv> CHR 0x0D"
abbreviation DQ :: char where "DQ \<equiv> CHR 0x22"
abbreviation SQ :: char where "SQ \<equiv> CHR 0x27"
abbreviation BS :: char where "BS \<equiv> CHR 0x5C"
abbreviation DASH :: char where "DASH \<equiv> CHR ''-''"

text \<open>The dataclass \<^verbatim>\<open>Issue\<close> (line, column, message, code).\<close>

record Issue =
  line :: int
  column :: int
  message :: string
  code :: string

text \<open>The only exception the analysis can raise: \<^verbatim>\<open>len(indent) % indent_size\<close> with
  \<^verbatim>\<open>indent_size == 0\<close>.\<close>

datatype error = ZeroDivisionError

text \<open>A block frame: the tuple (expected closing keyword, opening line).\<close>

type_synonym frame = "string \<times> int"

definition BLOCK_PAIRS :: "string \<rightharpoonup> string" where
  "BLOCK_PAIRS = map_of [(''function'', ''end''), (''do'', ''end''),
                         (''then'', ''end''), (''repeat'', ''until'')]"

definition BLOCK_ENDINGS :: "string set" where
  "BLOCK_ENDINGS = {''end'', ''until''}"

section \<open>Python built-ins used by the analyzer\<close>

text \<open>\<^verbatim>\<open>str(n)\<close> for an integer, as the f-strings format it: decimal digits, a minus sign
  for a negative number.\<close>

definition digit_char :: "nat \<Rightarrow> char" where
  "digit_char d = char_of (48 + d)"

fun digits :: "nat \<Rightarrow> string" where
  "digits n = (if n < 10 then [digit_char n] else digits (n div 10) @ [digit_char (n mod 10)])"

declare digits.simps [simp del]

definition str_int :: "int \<Rightarrow> string" where
  "str_int i = (if i < 0 then ''-'' @ digits (nat (- i)) else digits (nat i))"

text \<open>\<^verbatim>\<open>ch.isalpha()\<close> on the code points below 256: the ASCII letters, the feminine and
  masculine ordinal indicators, the micro sign, and the Latin-1 letters (all of
  0xC0..0xFF but the multiplication and division signs).\<close>

definition isalpha :: "char \<Rightarrow> bool" where
  "isalpha ch =
     (let n = (of_char ch :: nat)
      in (65 \<le> n \<and> n \<le> 90) \<or> (97 \<le> n \<and> n \<le> 122) \<or> n = 170 \<or> n = 181 \<or> n = 186
         \<or> (192 \<le> n \<and> n \<le> 214) \<or> (216 \<le> n \<and> n \<le> 246) \<or> (248 \<le> n \<and> n \<le> 255))"

text \<open>\<^verbatim>\<open>str.splitlines()\<close>: the line boundaries among the code points below 256 are LF,
  VT, FF, CR, CR LF (one boundary), FS, GS, RS and NEL; no empty last line is produced
  when the text ends with a boundary.\<close>

definition is_linebreak :: "char \<Rightarrow> bool" where
  "is_linebreak c = ((of_char c :: nat) \<in> {10, 11, 12, 13, 28, 29, 30, 133})"

fun splitlines_loop :: "string \<Rightarrow> string \<Rightarrow> string list" where
  "splitlines_loop cur [] = (if cur = [] then [] else [cur])"
| "splitlines_loop cur [c] =
     (if is_linebreak c then cur # splitlines_loop [] [] else splitlines_loop (cur @ [c]) [])"
| "splitlines_loop cur (c # d # rest) =
     (if c = CR \<and> d = LF then cur # splitlines_loop [] rest
      else if is_linebreak c then cur # splitlines_loop [] (d # rest)
      else splitlines_loop (cur @ [c]) (d # rest))"

definition splitlines :: "string \<Rightarrow> string list" where
  "splitlines source = splitlines_loop [] source"

text \<open>\<^verbatim>\<open>s.endswith(suffix)\<close>, \<^verbatim>\<open>s.lstrip(chars)\<close>, \<^verbatim>\<open>s.rstrip(chars)\<close>,
  \<^verbatim>\<open>s.replace(c, "")\<close> for a single character, \<^verbatim>\<open>s.index(c)\<close> for a character
  that occurs in \<^verbatim>\<open>s\<close>.\<close>

definition endswith :: "string \<Rightarrow> string \<Rightarrow> bool" where
  "endswith s suffix = (length suffix \<le> length s \<and> drop (length s - length suffix) s = suffix)"

definition lstrip :: "string \<Rightarrow> string \<Rightarrow> string" where
  "lstrip chars s = dropWhile (\<lambda>c. c \<in> set chars) s"

definition rstrip :: "string \<Rightarrow> string \<Rightarrow> string" where
  "rstrip chars s = rev (dropWhile (\<lambda>c. c \<in> set chars) (rev s))"

definition remove_char :: "char \<Rightarrow> string \<Rightarrow> string" where
  "remove_char c s = filter (\<lambda>x. x \<noteq> c) s"

definition index_char :: "string \<Rightarrow> char \<Rightarrow> nat" where
  "index_char s c = length (takeWhile (\<lambda>x. x \<noteq> c) s)"

text \<open>\<^verbatim>\<open>s.find(sub)\<close>: the lowest index at which \<^verbatim>\<open>sub\<close> starts in \<^verbatim>\<open>s\<close>, or -1.\<close>

fun find_from :: "int \<Rightarrow> string \<Rightarrow> string \<Rightarrow> int" where
  "find_from k [] sub = (if sub = [] then k else - 1)"
| "find_from k (c # cs) sub =
     (if take (length sub) (c # cs) = sub then k else find_from (k + 1) cs sub)"

definition str_find :: "string \<Rightarrow> string \<Rightarrow> int" where
  "str_find s sub = find_from 0 s sub"

section \<open>The comment/string stripper and the word tokenizer\<close>

text \<open>\<^verbatim>\<open>_strip_comments\<close>: the \<^verbatim>\<open>while i < len(line)\<close> loop, with its index, the
  \<^verbatim>\<open>in_string\<close> state and the \<^verbatim>\<open>result\<close> accumulator. \<^verbatim>\<open>nxt\<close> is the one-character
  string after position \<^verbatim>\<open>i\<close>, or the empty string.\<close>

function strip_loop :: "string \<Rightarrow> nat \<Rightarrow> char option \<Rightarrow> string \<Rightarrow> string" where
  "strip_loop ln i in_string result =
     (if i < length ln then
        (let ch = ln ! i;
             nxt = (if i + 1 < length ln then [ln ! (i + 1)] else [])
         in if in_string = None \<and> ch = DASH \<and> nxt = ''-'' then result
            else if in_string = None \<and> (ch = DQ \<or> ch = SQ) then
              strip_loop ln (i + 1) (Some ch) (result @ '' '')
            else if in_string \<noteq> None then
              (if ch = BS then strip_loop ln (i + 1 + 1) in_string (result @ '' '')
               else if Some ch = in_string then strip_loop ln (i + 1) None (result @ '' '')
               else strip_loop ln (i + 1) in_string (result @ '' ''))
            else strip_loop ln (i + 1) in_string (result @ [ch]))
      else result)"
  by pat_completeness auto
termination
  by (relation "measure (\<lambda>(ln, i, in_string, result). length ln - i)") auto

declare strip_loop.simps [simp del]

definition strip_comments :: "string \<Rightarrow> string" where
  "strip_comments ln = strip_loop ln 0 None []"

text \<open>\<^verbatim>\<open>_tokenize\<close>: the generator's \<^verbatim>\<open>word\<close> buffer is the first argument.\<close>

fun tokenize_loop :: "string \<Rightarrow> string \<Rightarrow> string list" where
  "tokenize_loop word [] = (if word \<noteq> [] then [word] else [])"
| "tokenize_loop word (ch # rest) =
     (if isalpha ch \<or> ch = CHR ''_'' then tokenize_loop (word @ [ch]) rest
      else if word \<noteq> [] then word # tokenize_loop [] rest
      else tokenize_loop [] rest)"

definition tokenize :: "string \<Rightarrow> string list" where
  "tokenize ln = tokenize_loop [] ln"

definition find_column :: "string \<Rightarrow> string \<Rightarrow> int" where
  "find_column ln token = (let idx = str_find ln token in if idx \<ge> 0 then idx + 1 else 1)"

section \<open>The checks\<close>

text \<open>\<^verbatim>\<open>_check_indentation\<close>: the body of the loop for one line, then the loop over
  \<^verbatim>\<open>enumerate(lines, start=1)\<close>. The modulo is evaluated only when the indent is
  non-empty and made of spaces, and raises when \<^verbatim>\<open>indent_size\<close> is zero.\<close>

definition indentation_line :: "int \<Rightarrow> string \<Rightarrow> bool \<Rightarrow> int \<Rightarrow> error + Issue list" where
  "indentation_line idx ln prefer_spaces indent_size =
     (let stripped = lstrip [SP, TAB] ln;
          indent = take (length ln - length stripped) ln
      in if stripped = [] then Inr []
         else if SP \<in> set indent \<and> TAB \<in> set indent then
           Inr [\<lparr>line = idx, column = 1,
                 message = ''Mixed tabs and spaces in indentation'', code = ''INDENT''\<rparr>]
         else
           (let found =
                  (if prefer_spaces \<and> TAB \<in> set indent then
                     [\<lparr>line = idx, column = int (index_char indent TAB) + 1,
                       message = ''Tab indentation found (expected spaces)'',
                       code = ''INDENT''\<rparr>]
                   else [])
            in if indent \<noteq> [] \<and> remove_char SP indent = indent then Inr found
               else if indent \<noteq> [] \<and> set indent = {SP} then
                 (if indent_size = 0 then Inl ZeroDivisionError
                  else if int (length indent) mod indent_size \<noteq> 0 then
                    Inr (found @
                      [\<lparr>line = idx, column = int (length indent),
                        message = ''Indentation width should be a multiple of '' @ str_int indent_size,
                        code = ''INDENT''\<rparr>])
                  else Inr found)
               else Inr found))"

fun check_indentation_from :: "int \<Rightarrow> string list \<Rightarrow> bool \<Rightarrow> int \<Rightarrow> error + Issue list" where
  "check_indentation_from idx [] prefer_spaces indent_size = Inr []"
| "check_indentation_from idx (ln # rest) prefer_spaces indent_size =
     (case indentation_line idx ln prefer_spaces indent_size of
        Inl e \<Rightarrow> Inl e
      | Inr found \<Rightarrow>
          (case check_indentation_from (idx + 1) rest prefer_spaces indent_size of
             Inl e \<Rightarrow> Inl e
           | Inr later \<Rightarrow> Inr (found @ later)))"

definition check_indentation :: "string list \<Rightarrow> bool \<Rightarrow> int \<Rightarrow> error + Issue list" where
  "check_indentation lines prefer_spaces indent_size =
     check_indentation_from 1 lines prefer_spaces indent_size"

text \<open>\<^verbatim>\<open>_check_trailing_whitespace\<close>.\<close>

definition trailing_line :: "int \<Rightarrow> string \<Rightarrow> Issue list" where
  "trailing_line idx ln =
     (if rstrip [SP, TAB] ln \<noteq> ln then
        [\<lparr>line = idx, column = int (length ln), message = ''Trailing whitespace'',
          code = ''FORMAT''\<rparr>]
      else [])"

fun check_trailing_whitespace_from :: "int \<Rightarrow> string list \<Rightarrow> Issue list" where
  "check_trailing_whitespace_from idx [] = []"
| "check_trailing_whitespace_from idx (ln # rest) =
     trailing_line idx ln @ check_trailing_whitespace_from (idx + 1) rest"

definition check_trailing_whitespace :: "string list \<Rightarrow> Issue list" where
  "check_trailing_whitespace lines = check_trailing_whitespace_from 1 lines"

text \<open>\<^verbatim>\<open>_check_block_balance\<close>. The stack is the Python list: \<^verbatim>\<open>append\<close> adds at the
  end, \<^verbatim>\<open>stack[-1]\<close> is the last element, \<^verbatim>\<open>pop()\<close> removes it. Each function returns
  the new stack and the issues yielded, in order. \<^verbatim>\<open>block_token\<close> is the body of the
  inner loop, \<^verbatim>\<open>block_tokens\<close> the loop over the tokens of one line, and
  \<^verbatim>\<open>block_lines\<close> the loop over the lines.\<close>

definition block_token :: "int \<Rightarrow> string \<Rightarrow> string \<Rightarrow> frame list \<Rightarrow> frame list \<times> Issue list" where
  "block_token idx raw_line token stack =
     (case BLOCK_PAIRS token of
        Some closer \<Rightarrow> (stack @ [(closer, idx)], [])
      | None \<Rightarrow>
          if token \<in> BLOCK_ENDINGS then
            (if stack = [] then
               (stack, [\<lparr>line = idx, column = find_column raw_line token,
                         message = ''Unexpected '' @ [SQ] @ token @ [SQ], code = ''SYNTAX''\<rparr>])
             else
               (let (expected, start_line) = last stack
                in if expected \<noteq> token then
                     (stack, [\<lparr>line = idx, column = find_column raw_line token,
                               message = ''Expected '' @ [SQ] @ expected @ [SQ]
                                         @ '' opened at line '' @ str_int start_line,
                               code = ''SYNTAX''\<rparr>])
                   else (butlast stack, [])))
          else (stack, []))"

fun block_tokens :: "int \<Rightarrow> string \<Rightarrow> string list \<Rightarrow> frame list \<Rightarrow> frame list \<times> Issue list" where
  "block_tokens idx raw_line [] stack = (stack, [])"
| "block_tokens idx raw_line (token # tokens) stack =
     (let (stack1, found) = block_token idx raw_line token stack;
          (stack2, later) = block_tokens idx raw_line tokens stack1
      in (stack2, found @ later))"

fun block_lines :: "int \<Rightarrow> string list \<Rightarrow> frame list \<Rightarrow> frame list \<times> Issue list" where
  "block_lines idx [] stack = (stack, [])"
| "block_lines idx (raw_line # rest) stack =
     (let ln = strip_comments raw_line;
          tokens = tokenize ln;
          (stack1, found) = block_tokens idx raw_line tokens stack;
          (stack2, later) = block_lines (idx + 1) rest stack1
      in (stack2, found @ later))"

definition unclosed_issue :: "frame \<Rightarrow> Issue" where
  "unclosed_issue fr =
     (case fr of (expected, start_line) \<Rightarrow>
        \<lparr>line = start_line, column = 1,
         message = ''Unclosed block expecting '' @ [SQ] @ expected @ [SQ], code = ''SYNTAX''\<rparr>)"

definition check_block_balance :: "string list \<Rightarrow> Issue list" where
  "check_block_balance lines =
     (let (stack, found) = block_lines 1 lines []
      in found @ map unclosed_issue stack)"

section \<open>The entry point\<close>

text \<open>\<^verbatim>\<open>analyze_source\<close>: the \<^verbatim>\<open>issues\<close> list is threaded through the four steps; an
  exception of the indentation check leaves the function before the later checks run.\<close>

definition analyze_source :: "string \<Rightarrow> bool \<Rightarrow> int \<Rightarrow> error + Issue list" where
  "analyze_source source prefer_spaces indent_size =
     (let issues0 = [];
          lines = splitlines source;
          issues1 =
            (if source \<noteq> [] \<and> \<not> endswith source [LF] then
               issues0 @
                 [\<lparr>line = (if lines \<noteq> [] then int (length lines) else 1),
                   column = (if lines \<noteq> [] then int (length (last lines)) + 1 else 1),
                   message = ''Missing final newline'', code = ''FORMAT''\<rparr>]
             else issues0)
      in case check_indentation lines prefer_spaces indent_size of
           Inl e \<Rightarrow> Inl e
         | Inr found \<Rightarrow>
             (let issues2 = issues1 @ found;
                  issues3 = issues2 @ check_trailing_whitespace lines;
                  issues4 = issues3 @ check_block_balance lines
              in Inr issues4))"

section \<open>Definitions for the statements\<close>

text \<open>The stripper as a function of the text still to read: the \<^verbatim>\<open>in_string\<close> state
  and the rest of the line determine what the loop of \<^verbatim>\<open>_strip_comments\<close> appends to its
  result (lemma \<open>strip_loop_from\<close>).\<close>

fun strip_from :: "char option \<Rightarrow> string \<Rightarrow> string" where
  "strip_from s [] = []"
| "strip_from None (ch # rest) =
     (if ch = DASH \<and> take 1 rest = ''-'' then []
      else if ch = DQ \<or> ch = SQ then SP # strip_from (Some ch) rest
      else ch # strip_from None rest)"
| "strip_from (Some q) (ch # rest) =
     (if ch = BS then SP # strip_from (Some q) (drop 1 rest)
      else if ch = q then SP # strip_from None rest
      else SP # strip_from (Some q) rest)"

text \<open>The block-balance scan as one pass over token occurrences: an occurrence is a
  token with the number and the raw text of its line; the nested loops of
  \<^verbatim>\<open>_check_block_balance\<close> visit the occurrences of the source in order
  (lemma \<open>block_lines_run\<close>).\<close>

type_synonym occurrence = "int \<times> string \<times> string"

definition line_occurrences :: "int \<Rightarrow> string \<Rightarrow> occurrence list" where
  "line_occurrences idx raw_line = map (\<lambda>t. (idx, raw_line, t)) (tokenize (strip_comments raw_line))"

fun occurrences_from :: "int \<Rightarrow> string list \<Rightarrow> occurrence list" where
  "occurrences_from idx [] = []"
| "occurrences_from idx (raw_line # rest) =
     line_occurrences idx raw_line @ occurrences_from (idx + 1) rest"

fun run_occurrences :: "occurrence list \<Rightarrow> frame list \<Rightarrow> frame list \<times> Issue list" where
  "run_occurrences [] stack = (stack, [])"
| "run_occurrences ((idx, raw_line, token) # rest) stack =
     (let (stack1, found) = block_token idx raw_line token stack;
          (stack2, later) = run_occurrences rest stack1
      in (stack2, found @ later))"

text \<open>The word tokens of a source, line after line, as the checker reads them.\<close>

definition source_tokens :: "string list \<Rightarrow> string list" where
  "source_tokens lines = concat (map (\<lambda>raw_line. tokenize (strip_comments raw_line)) lines)"

text \<open>Balanced token sequences, as a grammar: the empty sequence; a word that is no
  block keyword followed by a balanced sequence; an opening keyword, a balanced body, the
  closing keyword the table requires for that opener, and a balanced rest.\<close>

inductive balanced :: "string list \<Rightarrow> bool" where
  balanced_empty: "balanced []"
| balanced_word: "BLOCK_PAIRS t = None \<Longrightarrow> t \<notin> BLOCK_ENDINGS \<Longrightarrow> balanced ts \<Longrightarrow> balanced (t # ts)"
| balanced_block: "BLOCK_PAIRS opener = Some closer \<Longrightarrow> balanced body \<Longrightarrow> balanced rest
     \<Longrightarrow> balanced (opener # body @ closer # rest)"

text \<open>Positions (0-based) at which a text occurs in a string, and the first of them.\<close>

definition occurs_at :: "string \<Rightarrow> string \<Rightarrow> nat \<Rightarrow> bool" where
  "occurs_at s sub j = (j \<le> length s \<and> take (length sub) (drop j s) = sub)"


text \<open>The block keywords, and the keyword tokens of a source with their line numbers.\<close>

definition is_keyword :: "string \<Rightarrow> bool" where
  "is_keyword t = (BLOCK_PAIRS t \<noteq> None \<or> t \<in> BLOCK_ENDINGS)"

definition keyword_tokens :: "string list \<Rightarrow> (int \<times> string) list" where
  "keyword_tokens lines =
     filter (\<lambda>(idx, t). is_keyword t) (map (\<lambda>(idx, raw_line, t). (idx, t)) (occurrences_from 1 lines))"

text \<open>A text occurs somewhere in a string.\<close>

definition occurs_in :: "string \<Rightarrow> string \<Rightarrow> bool" where
  "occurs_in t l = (\<exists>a b. l = a @ t @ b)"

text \<open>A prefix of a line ends outside of any string: read from the given state, with a
  quote opening a string, the same quote closing it and a backslash inside a string
  taking the next character with it, the prefix ends in the state outside a string.\<close>

fun ends_outside_string :: "char option \<Rightarrow> string \<Rightarrow> bool" where
  "ends_outside_string s [] = (s = None)"
| "ends_outside_string None (ch # rest) =
     (if ch = DQ \<or> ch = SQ then ends_outside_string (Some ch) rest
      else ends_outside_string None rest)"
| "ends_outside_string (Some q) (ch # rest) =
     (if ch = BS then
        (case rest of [] \<Rightarrow> False | escaped # rest' \<Rightarrow> ends_outside_string (Some q) rest')
      else if ch = q then ends_outside_string None rest
      else ends_outside_string (Some q) rest)"

text \<open>The body of a string literal opened by the quote \<^verbatim>\<open>q\<close>: characters other than
  the quote and the backslash, and backslash escapes (a backslash and any one
  character).\<close>

fun string_body :: "char \<Rightarrow> string \<Rightarrow> bool" where
  "string_body q [] = True"
| "string_body q [c] = (c \<noteq> q \<and> c \<noteq> BS)"
| "string_body q (c # d # rest) =
     (if c = BS then string_body q rest else c \<noteq> q \<and> string_body q (d # rest))"

text \<open>An issue without its column.\<close>

definition uncolumn :: "Issue \<Rightarrow> int \<times> string \<times> string" where
  "uncolumn i = (line i, message i, code i)"

text \<open>The final-newline finding as the specification words it: one issue at the last
  line, one column past its end, when the source is non-empty and its last character is
  not a newline.\<close>

definition final_newline_issues :: "string \<Rightarrow> Issue list" where
  "final_newline_issues source =
     (if source \<noteq> [] \<and> last source \<noteq> LF then
        [\<lparr>line = int (length (splitlines source)),
          column = int (length (last (splitlines source))) + 1,
          message = ''Missing final newline'', code = ''FORMAT''\<rparr>]
      else [])"



section \<open>Lemmas\<close>

subsection \<open>The stripper's loop, by the rest of the line\<close>

lemma strip_loop_from:
  "strip_loop ln i s res = res @ strip_from s (drop i ln)"
proof (induction ln i s res rule: strip_loop.induct)
  case (1 ln i in_string result)
  show ?case
  proof (cases "i < length ln")
    case False
    then show ?thesis by (simp add: strip_loop.simps)
  next
    case True
    then have d: "drop i ln = ln ! i # drop (Suc i) ln"
      by (simp add: Cons_nth_drop_Suc)
    have t: "take 1 (drop (Suc i) ln) = (if i + 1 < length ln then [ln ! (i + 1)] else [])"
      by (simp add: take_Suc_conv_app_nth)
    show ?thesis
      apply (subst strip_loop.simps)
      using True 1 d t
      apply (cases in_string)
       apply (auto simp: Let_def)
      done
  qed
qed

subsection \<open>The scan as a pass over token occurrences; balanced sequences\<close>

lemma run_occurrences_append:
  "run_occurrences (xs @ ys) stack =
     (let (stack1, found) = run_occurrences xs stack;
          (stack2, later) = run_occurrences ys stack1
      in (stack2, found @ later))"
  by (induction xs stack rule: run_occurrences.induct) (auto simp: Let_def split: prod.splits)

lemma block_tokens_run:
  "block_tokens idx raw_line tokens stack =
     run_occurrences (map (\<lambda>t. (idx, raw_line, t)) tokens) stack"
  by (induction tokens arbitrary: stack) (auto simp: Let_def split: prod.splits)

lemma block_lines_run:
  "block_lines idx lines stack = run_occurrences (occurrences_from idx lines) stack"
  by (induction lines arbitrary: idx stack)
     (auto simp: Let_def run_occurrences_append block_tokens_run line_occurrences_def
           split: prod.splits)

lemma tokens_of_occurrences:
  "map (\<lambda>(idx, raw_line, t). t) (occurrences_from idx lines) = source_tokens lines"
  by (induction lines arbitrary: idx) (auto simp: source_tokens_def line_occurrences_def comp_def)

lemma closer_is_ending:
  "BLOCK_PAIRS opener = Some closer \<Longrightarrow> BLOCK_PAIRS closer = None \<and> closer \<in> BLOCK_ENDINGS"
  by (auto simp: BLOCK_PAIRS_def BLOCK_ENDINGS_def split: if_splits)

lemma block_token_open:
  "BLOCK_PAIRS t = Some closer \<Longrightarrow> block_token idx raw t stack = (stack @ [(closer, idx)], [])"
  by (simp add: block_token_def)

lemma block_token_word:
  "BLOCK_PAIRS t = None \<Longrightarrow> t \<notin> BLOCK_ENDINGS \<Longrightarrow> block_token idx raw t stack = (stack, [])"
  by (simp add: block_token_def)

lemma block_token_match:
  "BLOCK_PAIRS t = None \<Longrightarrow> t \<in> BLOCK_ENDINGS \<Longrightarrow>
   block_token idx raw t (stack @ [(t, k)]) = (stack, [])"
  by (simp add: block_token_def)

lemma balanced_run:
  "balanced ts \<Longrightarrow> map (\<lambda>(idx, raw_line, t). t) occs = ts \<Longrightarrow> run_occurrences occs stack = (stack, [])"
proof (induction arbitrary: occs stack rule: balanced.induct)
  case balanced_empty
  then show ?case by simp
next
  case (balanced_word t ts)
  then obtain idx raw rest where o: "occs = (idx, raw, t) # rest"
    and r: "map (\<lambda>(idx, raw_line, t). t) rest = ts"
    by (auto simp: map_eq_Cons_conv)
  show ?case
    using balanced_word.IH[OF r] balanced_word.hyps(1,2)
    by (simp add: o block_token_word)
next
  case (balanced_block opener closer body rest)
  from balanced_block.prems obtain idx raw tl1 where o: "occs = (idx, raw, opener) # tl1"
    and t1: "map (\<lambda>(idx, raw_line, t). t) tl1 = body @ closer # rest"
    by (auto simp: map_eq_Cons_conv)
  from t1 obtain B tl2 where s1: "tl1 = B @ tl2"
    and b: "map (\<lambda>(idx, raw_line, t). t) B = body"
    and t2: "map (\<lambda>(idx, raw_line, t). t) tl2 = closer # rest"
    by (auto simp: map_eq_append_conv)
  from t2 obtain idx2 raw2 R where s2: "tl2 = (idx2, raw2, closer) # R"
    and r: "map (\<lambda>(idx, raw_line, t). t) R = rest"
    by (auto simp: map_eq_Cons_conv)
  have c: "BLOCK_PAIRS closer = None" "closer \<in> BLOCK_ENDINGS"
    using closer_is_ending[OF balanced_block.hyps(1)] by auto
  show ?case
    using balanced_block.IH(1)[OF b, of "stack @ [(closer, idx)]"] balanced_block.IH(2)[OF r, of stack]
    by (simp add: o s1 s2 run_occurrences_append block_token_open[OF balanced_block.hyps(1)]
        block_token_match[OF c])
qed

subsection \<open>Columns: every token the checker reads occurs in the raw line\<close>





lemma SP_nonalpha: "\<not> isalpha SP"
  by (simp add: isalpha_def)

lemma occurs_in_nil: "occurs_in [] l"
  unfolding occurs_in_def by (metis append_Nil)

lemma occurs_in_cons: "occurs_in t xs \<Longrightarrow> occurs_in t (c # xs)"
  unfolding occurs_in_def by (metis append_Cons)

lemma occurs_in_drop: "occurs_in t (drop n xs) \<Longrightarrow> occurs_in t xs"
  unfolding occurs_in_def by (metis append_assoc append_take_drop_id)

lemma occurs_in_prefix: "l = p @ r \<Longrightarrow> occurs_in p l"
  unfolding occurs_in_def by (metis append_Nil)

lemma token_after_space:
  "t \<in> set (tokenize_loop w (SP # X)) \<Longrightarrow> t = w \<or> t \<in> set (tokenize_loop [] X)"
  by (simp add: SP_nonalpha split: if_splits)

lemma token_in_string_part:
  "t \<in> set (tokenize_loop w (strip_from s l)) \<Longrightarrow>
     (case s of None \<Rightarrow> (\<exists>p r. l = p @ r \<and> t = w @ p) \<or> occurs_in t l
              | Some q \<Rightarrow> t = w \<or> occurs_in t l)"
proof (induction s l arbitrary: w rule: strip_from.induct)
  case (1 s)
  then show ?case by (cases s) (auto split: if_splits)
next
  case (2 ch rest)
  show ?case
  proof (cases "ch = DASH \<and> take 1 rest = ''-''")
    case True
    with 2(3) show ?thesis by (auto split: if_splits)
  next
    case nc: False
    show ?thesis
    proof (cases "ch = DQ \<or> ch = SQ")
      case True
      with nc 2(3) have "t \<in> set (tokenize_loop w (SP # strip_from (Some ch) rest))" by auto
      then have "t = w \<or> t \<in> set (tokenize_loop [] (strip_from (Some ch) rest))"
        by (rule token_after_space)
      then show ?thesis
      proof
        assume "t = w" then show ?thesis by auto
      next
        assume "t \<in> set (tokenize_loop [] (strip_from (Some ch) rest))"
        from 2(1)[OF nc True this] have "t = [] \<or> occurs_in t rest" by simp
        then have "occurs_in t (ch # rest)"
          using occurs_in_nil occurs_in_cons by auto
        then show ?thesis by simp
      qed
    next
      case nq: False
      with nc 2(3) have m: "t \<in> set (tokenize_loop w (ch # strip_from None rest))" by auto
      show ?thesis
      proof (cases "isalpha ch \<or> ch = CHR ''_''")
        case True
        with m have "t \<in> set (tokenize_loop (w @ [ch]) (strip_from None rest))" by simp
        from 2(2)[OF nc nq this]
        have "(\<exists>p r. rest = p @ r \<and> t = (w @ [ch]) @ p) \<or> occurs_in t rest" by simp
        then show ?thesis
        proof
          assume "\<exists>p r. rest = p @ r \<and> t = (w @ [ch]) @ p"
          then obtain p r where "rest = p @ r" "t = (w @ [ch]) @ p" by blast
          then have "ch # rest = (ch # p) @ r \<and> t = w @ (ch # p)" by simp
          then have "\<exists>p r. ch # rest = p @ r \<and> t = w @ p" by blast
          then show ?thesis by simp
        next
          assume "occurs_in t rest"
          then show ?thesis by (simp add: occurs_in_cons)
        qed
      next
        case False
        with m have "t = w \<or> t \<in> set (tokenize_loop [] (strip_from None rest))"
          by (simp split: if_splits)
        then show ?thesis
        proof
          assume "t = w" then show ?thesis by auto
        next
          assume "t \<in> set (tokenize_loop [] (strip_from None rest))"
          from 2(2)[OF nc nq this]
          have "(\<exists>p r. rest = p @ r \<and> t = p) \<or> occurs_in t rest" by simp
          then have "occurs_in t rest" using occurs_in_prefix by blast
          then show ?thesis by (simp add: occurs_in_cons)
        qed
      qed
    qed
  qed
next
  case (3 q ch rest)
  show ?case
  proof (cases "ch = BS")
    case True
    with 3(4) have "t = w \<or> t \<in> set (tokenize_loop [] (strip_from (Some q) (drop 1 rest)))"
      using token_after_space by simp
    then show ?thesis
    proof
      assume "t = w" then show ?thesis by simp
    next
      assume "t \<in> set (tokenize_loop [] (strip_from (Some q) (drop 1 rest)))"
      from 3(1)[OF True this] have "t = [] \<or> occurs_in t (drop 1 rest)" by simp
      then have "occurs_in t (ch # rest)"
        using occurs_in_nil occurs_in_cons occurs_in_drop by blast
      then show ?thesis by simp
    qed
  next
    case nb: False
    show ?thesis
    proof (cases "ch = q")
      case True
      with nb 3(4) have "t = w \<or> t \<in> set (tokenize_loop [] (strip_from None rest))"
        using token_after_space by simp
      then show ?thesis
      proof
        assume "t = w" then show ?thesis by simp
      next
        assume "t \<in> set (tokenize_loop [] (strip_from None rest))"
        from 3(2)[OF nb True this]
        have "(\<exists>p r. rest = p @ r \<and> t = p) \<or> occurs_in t rest" by simp
        then have "occurs_in t rest" using occurs_in_prefix by blast
        then show ?thesis by (simp add: occurs_in_cons)
      qed
    next
      case False
      with nb 3(4) have "t = w \<or> t \<in> set (tokenize_loop [] (strip_from (Some q) rest))"
        using token_after_space by simp
      then show ?thesis
      proof
        assume "t = w" then show ?thesis by simp
      next
        assume "t \<in> set (tokenize_loop [] (strip_from (Some q) rest))"
        from 3(3)[OF nb False this] have "t = [] \<or> occurs_in t rest" by simp
        then have "occurs_in t (ch # rest)"
          using occurs_in_nil occurs_in_cons by blast
        then show ?thesis by simp
      qed
    qed
  qed
qed

lemma token_occurs:
  assumes "t \<in> set (tokenize (strip_comments raw))"
  shows "\<exists>j. occurs_at raw t j"
proof -
  from assms have "t \<in> set (tokenize_loop [] (strip_from None raw))"
    by (simp add: tokenize_def strip_comments_def strip_loop_from)
  from token_in_string_part[OF this]
  have "(\<exists>p r. raw = p @ r \<and> t = p) \<or> occurs_in t raw" by simp
  then have "occurs_in t raw" using occurs_in_prefix by blast
  then obtain a b where "raw = a @ t @ b" unfolding occurs_in_def by blast
  then have "occurs_at raw t (length a)" by (simp add: occurs_at_def)
  then show ?thesis ..
qed


subsection \<open>Unclosed blocks\<close>

lemma block_token_not_unclosed:
  "i \<in> set (snd (block_token idx raw t st)) \<Longrightarrow> take 8 (message i) \<noteq> ''Unclosed''"
  by (auto simp: block_token_def split: option.splits if_splits prod.splits)

lemma run_not_unclosed:
  "i \<in> set (snd (run_occurrences occs st)) \<Longrightarrow> take 8 (message i) \<noteq> ''Unclosed''"
proof (induction occs st rule: run_occurrences.induct)
  case (1 stack)
  then show ?case by simp
next
  case (2 idx raw_line token rest stack)
  obtain s1 f where bt: "block_token idx raw_line token stack = (s1, f)" by (cases "block_token idx raw_line token stack")
  obtain s2 l where r: "run_occurrences rest s1 = (s2, l)" by (cases "run_occurrences rest s1")
  from 2(2) bt r have "i \<in> set f \<or> i \<in> set l" by simp
  then show ?case
  proof
    assume "i \<in> set f"
    then show ?thesis using block_token_not_unclosed[of i idx raw_line token stack] bt by simp
  next
    assume "i \<in> set l"
    then show ?thesis using 2(1)[OF bt[symmetric] refl] r by simp
  qed
qed

lemma unclosed_issue_prefix: "take 8 (message (unclosed_issue fr)) = ''Unclosed''"
  by (cases fr) (simp add: unclosed_issue_def)

lemma unclosed_filter:
  "filter (\<lambda>i. take 8 (message i) = ''Unclosed'') (check_block_balance lines)
     = map unclosed_issue (fst (block_lines 1 lines []))"
proof -
  obtain st f where b: "block_lines 1 lines [] = (st, f)" by (cases "block_lines 1 lines []")
  have "filter (\<lambda>i. take 8 (message i) = ''Unclosed'') f = []"
    using run_not_unclosed[of _ "occurrences_from 1 lines" "[]"] b
    by (auto simp: filter_empty_conv block_lines_run)
  moreover have "filter (\<lambda>i. take 8 (message i) = ''Unclosed'') (map unclosed_issue st) = map unclosed_issue st"
    by (simp add: filter_id_conv unclosed_issue_prefix)
  ultimately show ?thesis by (simp add: check_block_balance_def b)
qed

lemma run_filter_keywords:
  "run_occurrences occs st = run_occurrences (filter (\<lambda>(idx, raw_line, t). is_keyword t) occs) st"
proof (induction occs st rule: run_occurrences.induct)
  case (1 stack)
  then show ?case by simp
next
  case (2 idx raw_line token rest stack)
  show ?case
  proof (cases "is_keyword token")
    case True
    then show ?thesis using 2 by (auto simp: Let_def split: prod.splits)
  next
    case False
    then have "block_token idx raw_line token stack = (stack, [])"
      by (simp add: is_keyword_def block_token_word)
    then show ?thesis using 2 False by simp
  qed
qed

lemma lone_opener:
  assumes "keyword_tokens lines = [(k, opener)]" "BLOCK_PAIRS opener = Some closer"
  shows "check_block_balance lines = [unclosed_issue (closer, k)]"
proof -
  let ?occs = "occurrences_from 1 lines"
  have "map (\<lambda>(idx, raw_line, t). (idx, t)) (filter (\<lambda>(idx, raw_line, t). is_keyword t) ?occs) = [(k, opener)]"
    using assms(1) unfolding keyword_tokens_def
    by (simp add: filter_map comp_def case_prod_unfold)
  then obtain raw where "filter (\<lambda>(idx, raw_line, t). is_keyword t) ?occs = [(k, raw, opener)]"
    by (auto simp: map_eq_Cons_conv)
  then have "run_occurrences ?occs [] = ([(closer, k)], [])"
    using run_filter_keywords[of ?occs "[]"] by (simp add: block_token_open[OF assms(2)])
  then show ?thesis by (simp add: check_block_balance_def block_lines_run)
qed

subsection \<open>Text after a comment marker and inside string literals\<close>

lemma take1_append: "take 1 X = take 1 Y \<Longrightarrow> take 1 (rest @ X) = take 1 (rest @ Y)"
  by (cases rest) auto

lemma strip_from_prefix:
  assumes "ends_outside_string s pre" "take 1 X = take 1 Y"
  shows "\<exists>out cut. strip_from s (pre @ X) = (if cut then out else out @ strip_from None X)
                 \<and> strip_from s (pre @ Y) = (if cut then out else out @ strip_from None Y)"
  using assms(1)
proof (induction s pre rule: ends_outside_string.induct)
  case (1 s)
  then have "s = None" by simp
  then show ?case by (intro exI[of _ "[]"] exI[of _ False]) simp
next
  case (2 ch rest)
  define A where "A = rest @ X"
  define B where "B = rest @ Y"
  have t: "take 1 A = take 1 B" unfolding A_def B_def by (rule take1_append[OF assms(2)])
  have ab: "(ch # rest) @ X = ch # A" "(ch # rest) @ Y = ch # B" by (simp_all add: A_def B_def)
  show ?case
  proof (cases "ch = DQ \<or> ch = SQ")
    case True
    with 2(3) have "ends_outside_string (Some ch) rest" by simp
    from 2(1)[OF True this] obtain out cut where
      o: "strip_from (Some ch) A = (if cut then out else out @ strip_from None X)"
         "strip_from (Some ch) B = (if cut then out else out @ strip_from None Y)"
      unfolding A_def B_def by blast
    have "strip_from None (ch # A) = SP # strip_from (Some ch) A"
         "strip_from None (ch # B) = SP # strip_from (Some ch) B"
      using True by auto
    with o have "strip_from None ((ch # rest) @ X) = (if cut then SP # out else (SP # out) @ strip_from None X)
               \<and> strip_from None ((ch # rest) @ Y) = (if cut then SP # out else (SP # out) @ strip_from None Y)"
      unfolding ab by simp
    then show ?thesis by blast
  next
    case nq: False
    show ?thesis
    proof (cases "ch = DASH \<and> take 1 A = ''-''")
      case True
      then have "strip_from None (ch # A) = []" "strip_from None (ch # B) = []"
        using t by simp_all
      then have "strip_from None ((ch # rest) @ X) = (if True then [] else [] @ strip_from None X)
               \<and> strip_from None ((ch # rest) @ Y) = (if True then [] else [] @ strip_from None Y)"
        unfolding ab by simp
      then show ?thesis by blast
    next
      case nc: False
      from nq 2(3) have "ends_outside_string None rest" by simp
      from 2(2)[OF nq this] obtain out cut where
        o: "strip_from None A = (if cut then out else out @ strip_from None X)"
           "strip_from None B = (if cut then out else out @ strip_from None Y)"
        unfolding A_def B_def by blast
      have "strip_from None (ch # A) = ch # strip_from None A"
           "strip_from None (ch # B) = ch # strip_from None B"
        using nq nc t by auto
      with o have "strip_from None ((ch # rest) @ X) = (if cut then ch # out else (ch # out) @ strip_from None X)
                 \<and> strip_from None ((ch # rest) @ Y) = (if cut then ch # out else (ch # out) @ strip_from None Y)"
        unfolding ab by simp
      then show ?thesis by blast
    qed
  qed
next
  case (3 q ch rest)
  show ?case
  proof (cases "ch = BS")
    case True
    with 3(4) obtain e r where r: "rest = e # r" and e: "ends_outside_string (Some q) r"
      by (cases rest) auto
    from 3(1)[OF True r e] obtain out cut where
      o: "strip_from (Some q) (r @ X) = (if cut then out else out @ strip_from None X)"
         "strip_from (Some q) (r @ Y) = (if cut then out else out @ strip_from None Y)"
      by blast
    have "strip_from (Some q) ((ch # rest) @ X) = SP # strip_from (Some q) (r @ X)"
         "strip_from (Some q) ((ch # rest) @ Y) = SP # strip_from (Some q) (r @ Y)"
      using True r by simp_all
    with o have "strip_from (Some q) ((ch # rest) @ X) = (if cut then SP # out else (SP # out) @ strip_from None X)
               \<and> strip_from (Some q) ((ch # rest) @ Y) = (if cut then SP # out else (SP # out) @ strip_from None Y)"
      by simp
    then show ?thesis by blast
  next
    case nb: False
    show ?thesis
    proof (cases "ch = q")
      case True
      with nb 3(4) have "ends_outside_string None rest" by simp
      from 3(2)[OF nb True this] obtain out cut where
        o: "strip_from None (rest @ X) = (if cut then out else out @ strip_from None X)"
           "strip_from None (rest @ Y) = (if cut then out else out @ strip_from None Y)"
        by blast
      have "strip_from (Some q) ((ch # rest) @ X) = SP # strip_from None (rest @ X)"
           "strip_from (Some q) ((ch # rest) @ Y) = SP # strip_from None (rest @ Y)"
        using nb True by simp_all
      with o have "strip_from (Some q) ((ch # rest) @ X) = (if cut then SP # out else (SP # out) @ strip_from None X)
                 \<and> strip_from (Some q) ((ch # rest) @ Y) = (if cut then SP # out else (SP # out) @ strip_from None Y)"
        by simp
      then show ?thesis by blast
    next
      case False
      with nb 3(4) have "ends_outside_string (Some q) rest" by simp
      from 3(3)[OF nb False this] obtain out cut where
        o: "strip_from (Some q) (rest @ X) = (if cut then out else out @ strip_from None X)"
           "strip_from (Some q) (rest @ Y) = (if cut then out else out @ strip_from None Y)"
        by blast
      have "strip_from (Some q) ((ch # rest) @ X) = SP # strip_from (Some q) (rest @ X)"
           "strip_from (Some q) ((ch # rest) @ Y) = SP # strip_from (Some q) (rest @ Y)"
        using nb False by simp_all
      with o have "strip_from (Some q) ((ch # rest) @ X) = (if cut then SP # out else (SP # out) @ strip_from None X)
                 \<and> strip_from (Some q) ((ch # rest) @ Y) = (if cut then SP # out else (SP # out) @ strip_from None Y)"
        by simp
      then show ?thesis by blast
    qed
  qed
qed

lemma tokenize_loop_append_cong:
  "(\<And>w. tokenize_loop w A = tokenize_loop w B) \<Longrightarrow>
   tokenize_loop w (out @ A) = tokenize_loop w (out @ B)"
  by (induction out arbitrary: w) simp_all

lemma strip_string_body:
  "string_body q body \<Longrightarrow> q \<noteq> BS \<Longrightarrow>
   \<exists>n. strip_from (Some q) (body @ q # rest) = replicate (Suc n) SP @ strip_from None rest"
proof (induction q body rule: string_body.induct)
  case (1 q)
  show ?case using 1 by (intro exI[of _ 0]) simp
next
  case (2 q c)
  show ?case using 2 by (intro exI[of _ 1]) simp
next
  case (3 q c d rest')
  show ?case
  proof (cases "c = BS")
    case True
    with 3 obtain n where "strip_from (Some q) (rest' @ q # rest) = replicate (Suc n) SP @ strip_from None rest"
      by auto
    then show ?thesis using True by (intro exI[of _ "Suc n"]) simp
  next
    case False
    with 3 obtain n where "strip_from (Some q) ((d # rest') @ q # rest) = replicate (Suc n) SP @ strip_from None rest"
      by auto
    then show ?thesis using False 3(3) by (intro exI[of _ "Suc n"]) simp
  qed
qed

lemma tokenize_space:
  "tokenize_loop w (SP # R) = (if w \<noteq> [] then [w] else []) @ tokenize_loop [] R"
  by (simp add: SP_nonalpha)

lemma tokenize_spaces:
  "tokenize_loop w (replicate (Suc n) SP @ R) = (if w \<noteq> [] then [w] else []) @ tokenize_loop [] R"
proof (induction n arbitrary: w)
  case 0
  show ?case using tokenize_space[of w R] by simp
next
  case (Suc n)
  have "tokenize_loop w (replicate (Suc (Suc n)) SP @ R)
          = (if w \<noteq> [] then [w] else []) @ tokenize_loop [] (replicate (Suc n) SP @ R)"
    using tokenize_space[of w "replicate (Suc n) SP @ R"] by simp
  also have "tokenize_loop [] (replicate (Suc n) SP @ R) = tokenize_loop [] R"
    using Suc[of "[]"] by simp
  finally show ?case .
qed

lemma tokens_string_literal:
  assumes "q = DQ \<or> q = SQ" "string_body q body"
  shows "tokenize_loop w (strip_from None (q # body @ q # rest))
           = (if w \<noteq> [] then [w] else []) @ tokenize_loop [] (strip_from None rest)"
proof -
  have "q \<noteq> BS" using assms(1) by auto
  from strip_string_body[OF assms(2) this, of rest] obtain n where
    "strip_from (Some q) (body @ q # rest) = replicate (Suc n) SP @ strip_from None rest" by blast
  then have "strip_from None (q # body @ q # rest) = replicate (Suc (Suc n)) SP @ strip_from None rest"
    using assms(1) by auto
  then show ?thesis by (simp only: tokenize_spaces)
qed

lemma tokens_prefix_string:
  assumes "q = DQ \<or> q = SQ" "string_body q body" "string_body q body'"
    and "ends_outside_string None pre"
  shows "tokenize_loop w (strip_from None (pre @ q # body @ q # rest))
       = tokenize_loop w (strip_from None (pre @ q # body' @ q # rest))"
proof -
  have t: "take 1 (q # body @ q # rest) = take 1 (q # body' @ q # rest)" by simp
  from strip_from_prefix[OF assms(4) t] obtain out cut where
    o: "strip_from None (pre @ q # body @ q # rest)
          = (if cut then out else out @ strip_from None (q # body @ q # rest))"
       "strip_from None (pre @ q # body' @ q # rest)
          = (if cut then out else out @ strip_from None (q # body' @ q # rest))"
    by blast
  have e: "\<And>w. tokenize_loop w (strip_from None (q # body @ q # rest))
             = tokenize_loop w (strip_from None (q # body' @ q # rest))"
    by (simp only: tokens_string_literal[OF assms(1,2)] tokens_string_literal[OF assms(1,3)])
  show ?thesis
  proof (cases cut)
    case True
    then show ?thesis by (simp only: o if_True)
  next
    case False
    then show ?thesis by (simp only: o if_False tokenize_loop_append_cong[OF e])
  qed
qed

lemma strip_comment_tail:
  assumes "ends_outside_string None pre"
  shows "strip_from None (pre @ ''--'' @ cmt) = strip_from None (pre @ ''--'')"
proof -
  have t: "take 1 (''--'' @ cmt) = take 1 ''--''" by simp
  from strip_from_prefix[OF assms t] obtain out cut where
    o: "strip_from None (pre @ ''--'' @ cmt) = (if cut then out else out @ strip_from None (''--'' @ cmt))"
       "strip_from None (pre @ ''--'') = (if cut then out else out @ strip_from None ''--'')"
    by blast
  have "strip_from None (''--'' @ cmt) = []" "strip_from None ''--'' = []" by simp_all
  with o show ?thesis by simp
qed

lemma take_append_le: "n \<le> length xs \<Longrightarrow> take n (xs @ ys) = take n xs"
  by simp

lemma find_from_extend:
  "occurs_at s sub j \<Longrightarrow> find_from k (s @ ext) sub = find_from k s sub"
proof (induction s arbitrary: k j)
  case Nil
  then show ?case by (cases ext) (auto simp: occurs_at_def)
next
  case (Cons c cs)
  have "length (take (length sub) (drop j (c # cs))) = length sub"
    using Cons.prems unfolding occurs_at_def by simp
  then have len: "length sub \<le> length (c # cs)" by simp
  then have h: "take (length sub) ((c # cs) @ ext) = take (length sub) (c # cs)"
    by (rule take_append_le)
  show ?case
  proof (cases "take (length sub) (c # cs) = sub")
    case True
    then show ?thesis using h by simp
  next
    case False
    then obtain j' where j: "j = Suc j'" using Cons.prems
      by (cases j) (auto simp: occurs_at_def)
    then have "occurs_at cs sub j'" using Cons.prems by (simp add: occurs_at_def)
    from Cons.IH[OF this] False h show ?thesis by simp
  qed
qed

lemma find_column_extend:
  "occurs_at s sub j \<Longrightarrow> find_column (s @ ext) sub = find_column s sub"
  by (simp add: find_column_def str_find_def find_from_extend)

lemma block_token_column_cong:
  "find_column r1 t = find_column r2 t \<Longrightarrow> block_token idx r1 t st = block_token idx r2 t st"
  by (auto simp: block_token_def split: option.splits prod.splits)

lemma block_tokens_column_cong:
  "(\<And>t. t \<in> set ts \<Longrightarrow> find_column r1 t = find_column r2 t) \<Longrightarrow>
   block_tokens idx r1 ts st = block_tokens idx r2 ts st"
proof (induction ts arbitrary: st)
  case Nil
  show ?case by simp
next
  case (Cons t ts)
  have "block_token idx r1 t st = block_token idx r2 t st"
    by (rule block_token_column_cong) (simp add: Cons.prems)
  moreover have "\<And>st. block_tokens idx r1 ts st = block_tokens idx r2 ts st"
    by (rule Cons.IH) (simp add: Cons.prems)
  ultimately show ?case by simp
qed

lemma block_lines_line_cong:
  assumes "\<And>idx st. block_tokens idx x (tokenize (strip_comments x)) st
                     = block_tokens idx y (tokenize (strip_comments y)) st"
  shows "block_lines idx (before @ x # after) st = block_lines idx (before @ y # after) st"
proof (induction before arbitrary: idx st)
  case Nil
  show ?case by (simp add: assms Let_def)
next
  case (Cons b before)
  show ?case by (simp add: Cons Let_def)
qed

lemma comment_line_same:
  assumes "ends_outside_string None pre"
  shows "block_tokens idx (pre @ ''--'' @ cmt) (tokenize (strip_comments (pre @ ''--'' @ cmt))) st
       = block_tokens idx (pre @ ''--'') (tokenize (strip_comments (pre @ ''--''))) st"
proof -
  have s: "strip_comments (pre @ ''--'' @ cmt) = strip_comments (pre @ ''--'')"
    using strip_comment_tail[OF assms] by (simp add: strip_comments_def strip_loop_from)
  have "block_tokens idx ((pre @ ''--'') @ cmt) (tokenize (strip_comments (pre @ ''--''))) st
      = block_tokens idx (pre @ ''--'') (tokenize (strip_comments (pre @ ''--''))) st"
  proof (rule block_tokens_column_cong)
    fix t assume "t \<in> set (tokenize (strip_comments (pre @ ''--'')))"
    then obtain j where "occurs_at (pre @ ''--'') t j" using token_occurs by blast
    then show "find_column ((pre @ ''--'') @ cmt) t = find_column (pre @ ''--'') t"
      by (rule find_column_extend)
  qed
  then show ?thesis using s by simp
qed

lemma block_token_uncolumn:
  "fst (block_token idx r1 t st) = fst (block_token idx r2 t st)
   \<and> map uncolumn (snd (block_token idx r1 t st)) = map uncolumn (snd (block_token idx r2 t st))"
  by (auto simp: block_token_def uncolumn_def split: option.splits prod.splits)

lemma block_tokens_uncolumn:
  "fst (block_tokens idx r1 ts st) = fst (block_tokens idx r2 ts st)
   \<and> map uncolumn (snd (block_tokens idx r1 ts st)) = map uncolumn (snd (block_tokens idx r2 ts st))"
proof (induction ts arbitrary: st)
  case Nil
  show ?case by simp
next
  case (Cons t ts)
  obtain a f where 1: "block_token idx r1 t st = (a, f)" by (cases "block_token idx r1 t st")
  obtain b g where 2: "block_token idx r2 t st = (b, g)" by (cases "block_token idx r2 t st")
  have ab: "a = b" "map uncolumn f = map uncolumn g"
    using block_token_uncolumn[of idx r1 t st r2] 1 2 by auto
  obtain a' f' where 3: "block_tokens idx r1 ts b = (a', f')" by (cases "block_tokens idx r1 ts b")
  obtain b' g' where 4: "block_tokens idx r2 ts b = (b', g')" by (cases "block_tokens idx r2 ts b")
  show ?case using Cons[of b] ab by (simp add: 1 2 3 4)
qed

lemma block_lines_uncolumn:
  "map (\<lambda>l. tokenize (strip_comments l)) ls1 = map (\<lambda>l. tokenize (strip_comments l)) ls2 \<Longrightarrow>
   fst (block_lines idx ls1 st) = fst (block_lines idx ls2 st)
   \<and> map uncolumn (snd (block_lines idx ls1 st)) = map uncolumn (snd (block_lines idx ls2 st))"
proof (induction ls1 arbitrary: ls2 idx st)
  case Nil
  then show ?case by simp
next
  case (Cons x xs)
  then obtain y ys where l2: "ls2 = y # ys" and xy: "tokenize (strip_comments x) = tokenize (strip_comments y)"
    and r: "map (\<lambda>l. tokenize (strip_comments l)) xs = map (\<lambda>l. tokenize (strip_comments l)) ys"
    by (cases ls2) auto
  let ?ts = "tokenize (strip_comments y)"
  obtain a f where 1: "block_tokens idx x ?ts st = (a, f)" by (cases "block_tokens idx x ?ts st")
  obtain b g where 2: "block_tokens idx y ?ts st = (b, g)" by (cases "block_tokens idx y ?ts st")
  have ab: "a = b" "map uncolumn f = map uncolumn g"
    using block_tokens_uncolumn[of idx x ?ts st y] 1 2 by auto
  obtain a' f' where 3: "block_lines (idx + 1) xs b = (a', f')" by (cases "block_lines (idx + 1) xs b")
  obtain b' g' where 4: "block_lines (idx + 1) ys b = (b', g')" by (cases "block_lines (idx + 1) ys b")
  show ?case using Cons.IH[OF r, of "idx + 1" b] ab
    by (simp add: l2 xy 1 2 3 4 Let_def)
qed

lemma check_block_balance_uncolumn:
  assumes "map (\<lambda>l. tokenize (strip_comments l)) ls1 = map (\<lambda>l. tokenize (strip_comments l)) ls2"
  shows "map uncolumn (check_block_balance ls1) = map uncolumn (check_block_balance ls2)"
proof -
  obtain a f where 1: "block_lines 1 ls1 [] = (a, f)" by (cases "block_lines 1 ls1 []")
  obtain b g where 2: "block_lines 1 ls2 [] = (b, g)" by (cases "block_lines 1 ls2 []")
  show ?thesis using block_lines_uncolumn[OF assms, of 1 "[]"]
    by (simp add: check_block_balance_def 1 2)
qed

lemma check_block_balance_comment:
  assumes "ends_outside_string None pre"
  shows "check_block_balance (before @ (pre @ ''--'' @ cmt) # after)
       = check_block_balance (before @ (pre @ ''--'') # after)"
  unfolding check_block_balance_def
  by (simp only: block_lines_line_cong[of "pre @ ''--'' @ cmt" "pre @ ''--''", OF comment_line_same[OF assms]])

subsection \<open>Indentation depends on the leading run only\<close>

lemma indent_is_takeWhile:
  "take (length ln - length (dropWhile P ln)) ln = takeWhile P ln"
proof -
  have "length ln - length (dropWhile P ln) = length (takeWhile P ln)"
    by (metis add_diff_cancel_right' length_append takeWhile_dropWhile_id)
  then show ?thesis
    by (metis append_eq_conv_conj takeWhile_dropWhile_id)
qed

lemma takeWhile_stop:
  "\<not> P c \<Longrightarrow> takeWhile P (pre @ c # X) = takeWhile P (pre @ c # Y)"
  by (induction pre) auto

lemma dropWhile_stop:
  "\<not> P c \<Longrightarrow> dropWhile P (pre @ c # X) \<noteq> []"
  by (induction pre) auto

lemma indentation_line_tail:
  assumes "c \<noteq> SP" "c \<noteq> TAB"
  shows "indentation_line idx (pre @ c # X) ps n = indentation_line idx (pre @ c # Y) ps n"
proof -
  let ?P = "\<lambda>c. c \<in> set [SP, TAB]"
  have np: "\<not> ?P c" using assms by simp
  show ?thesis
    unfolding indentation_line_def lstrip_def Let_def
    by (simp only: indent_is_takeWhile takeWhile_stop[of ?P c pre X Y, OF np]
        dropWhile_stop[of ?P c pre, OF np] if_False)
qed

lemma check_indentation_line_cong:
  assumes "\<And>idx. indentation_line idx x ps n = indentation_line idx y ps n"
  shows "check_indentation_from idx (before @ x # after) ps n
       = check_indentation_from idx (before @ y # after) ps n"
proof (induction before arbitrary: idx)
  case Nil
  show ?case by (simp add: assms)
next
  case (Cons b before)
  show ?case by (simp add: Cons[of "idx + 1"] cong: sum.case_cong)
qed

lemma check_indentation_tail:
  assumes "c \<noteq> SP" "c \<noteq> TAB"
  shows "check_indentation (before @ (pre @ c # X) # after) ps n
       = check_indentation (before @ (pre @ c # Y) # after) ps n"
  unfolding check_indentation_def
  by (rule check_indentation_line_cong) (rule indentation_line_tail[OF assms])

subsection \<open>The indentation check of one line, case by case\<close>

lemma indent_subset: "set (takeWhile (\<lambda>c. c \<in> set [SP, TAB]) ln) \<subseteq> {SP, TAB}"
  using set_takeWhileD[of _ "\<lambda>c. c \<in> set [SP, TAB]" ln] by auto

lemma remove_char_id: "remove_char c s = s \<longleftrightarrow> c \<notin> set s"
  by (auto simp: remove_char_def filter_id_conv)

lemma spaces_only:
  assumes "set s \<subseteq> {SP, TAB}" "s \<noteq> []"
  shows "set s = {SP} \<longleftrightarrow> TAB \<notin> set s"
proof
  assume "set s = {SP}" then show "TAB \<notin> set s" by simp
next
  assume t: "TAB \<notin> set s"
  from assms(2) obtain x where x: "x \<in> set s" by (cases s) auto
  with assms(1) t have "x = SP" by auto
  with x have "SP \<in> set s" by simp
  moreover from assms(1) t have "set s \<subseteq> {SP}" by auto
  ultimately show "set s = {SP}" by auto
qed

lemma indentation_skeleton:
  assumes sub: "set indent \<subseteq> {SP, TAB}"
  shows "(if stripped = [] then Inr []
          else if SP \<in> set indent \<and> TAB \<in> set indent then Inr [m]
          else (let found = (if ps \<and> TAB \<in> set indent then [t] else [])
                in if indent \<noteq> [] \<and> remove_char SP indent = indent then Inr found
                   else if indent \<noteq> [] \<and> set indent = {SP} then
                     (if n = (0::int) then Inl e
                      else if cond then Inr (found @ [w])
                      else Inr found)
                   else Inr found))
       = (if stripped = [] then Inr []
          else if SP \<in> set indent \<and> TAB \<in> set indent then Inr [m]
          else if TAB \<in> set indent then Inr (if ps then [t] else [])
          else if indent = [] then Inr []
          else if n = 0 then Inl e
          else if cond then Inr [w]
          else Inr [])"
proof (cases "indent = []")
  case True
  then show ?thesis by simp
next
  case False
  from spaces_only[OF sub False] have so: "set indent = {SP} \<longleftrightarrow> TAB \<notin> set indent" .
  show ?thesis
  proof (cases "TAB \<in> set indent")
    case True
    then show ?thesis using False so by (simp add: remove_char_id)
  next
    case nt: False
    then have "SP \<in> set indent" using so by auto
    then show ?thesis using False so nt by (simp add: remove_char_id)
  qed
qed

lemma indentation_line_alt:
  "indentation_line idx ln prefer_spaces indent_size =
     (if dropWhile (\<lambda>c. c \<in> set [SP, TAB]) ln = [] then Inr []
      else if SP \<in> set (takeWhile (\<lambda>c. c \<in> set [SP, TAB]) ln)
            \<and> TAB \<in> set (takeWhile (\<lambda>c. c \<in> set [SP, TAB]) ln) then
        Inr [\<lparr>line = idx, column = 1,
              message = ''Mixed tabs and spaces in indentation'', code = ''INDENT''\<rparr>]
      else if TAB \<in> set (takeWhile (\<lambda>c. c \<in> set [SP, TAB]) ln) then
        Inr (if prefer_spaces then
               [\<lparr>line = idx,
                 column = int (index_char (takeWhile (\<lambda>c. c \<in> set [SP, TAB]) ln) TAB) + 1,
                 message = ''Tab indentation found (expected spaces)'', code = ''INDENT''\<rparr>]
             else [])
      else if takeWhile (\<lambda>c. c \<in> set [SP, TAB]) ln = [] then Inr []
      else if indent_size = 0 then Inl ZeroDivisionError
      else if int (length (takeWhile (\<lambda>c. c \<in> set [SP, TAB]) ln)) mod indent_size \<noteq> 0 then
        Inr [\<lparr>line = idx, column = int (length (takeWhile (\<lambda>c. c \<in> set [SP, TAB]) ln)),
              message = ''Indentation width should be a multiple of '' @ str_int indent_size,
              code = ''INDENT''\<rparr>]
      else Inr [])"
  apply (subst indentation_line_def)
  apply (subst Let_def)
  apply (subst Let_def)
  apply (simp only: lstrip_def indent_is_takeWhile)
  apply (rule indentation_skeleton[OF indent_subset])
  done

subsection \<open>The result of the analysis\<close>

lemma splitlines_loop_nonempty:
  "cur \<noteq> [] \<or> s \<noteq> [] \<Longrightarrow> splitlines_loop cur s \<noteq> []"
  by (induction cur s rule: splitlines_loop.induct) auto

lemma splitlines_nonempty: "source \<noteq> [] \<Longrightarrow> splitlines source \<noteq> []"
  by (simp add: splitlines_def splitlines_loop_nonempty)

lemma endswith_newline: "source \<noteq> [] \<Longrightarrow> endswith source [LF] \<longleftrightarrow> last source = LF"
proof -
  assume ne: "source \<noteq> []"
  then obtain xs x where s: "source = xs @ [x]" by (metis rev_exhaust)
  show ?thesis by (simp add: s endswith_def)
qed

lemma indentation_line_total:
  "indent_size \<noteq> 0 \<Longrightarrow> \<exists>found. indentation_line idx ln prefer_spaces indent_size = Inr found"
  unfolding indentation_line_alt by simp

lemma check_indentation_from_total:
  "indent_size \<noteq> 0 \<Longrightarrow> \<exists>found. check_indentation_from idx lines prefer_spaces indent_size = Inr found"
proof (induction lines arbitrary: idx)
  case Nil
  show ?case by simp
next
  case (Cons ln lines)
  from indentation_line_total[OF Cons.prems] obtain f where
    f: "indentation_line idx ln prefer_spaces indent_size = Inr f" by blast
  from Cons.IH[OF Cons.prems] obtain g where
    g: "check_indentation_from (idx + 1) lines prefer_spaces indent_size = Inr g" by blast
  show ?case by (simp add: f g)
qed

lemma analyze_source_concat:
  "analyze_source source prefer_spaces indent_size =
     (case check_indentation (splitlines source) prefer_spaces indent_size of
        Inl e \<Rightarrow> Inl e
      | Inr found \<Rightarrow>
          Inr (final_newline_issues source @ found
               @ check_trailing_whitespace (splitlines source)
               @ check_block_balance (splitlines source)))"
proof (cases "source = []")
  case True
  then show ?thesis
    by (simp add: analyze_source_def final_newline_issues_def Let_def split: sum.splits)
next
  case False
  then show ?thesis
    using splitlines_nonempty[OF False] endswith_newline[OF False]
    by (simp add: analyze_source_def final_newline_issues_def Let_def split: sum.splits)
qed

lemma indentation_line_message:
  "indentation_line idx ln ps n = Inr found \<Longrightarrow> i \<in> set found \<Longrightarrow>
   message i \<noteq> ''Missing final newline'' \<and> code i = ''INDENT'' \<and> line i = idx"
  unfolding indentation_line_alt by (auto split: if_splits)

lemma check_indentation_from_message:
  "check_indentation_from idx lines ps n = Inr found \<Longrightarrow> i \<in> set found \<Longrightarrow>
   message i \<noteq> ''Missing final newline'' \<and> code i = ''INDENT'' \<and> idx \<le> line i"
proof (induction lines arbitrary: idx found)
  case Nil
  then show ?case by simp
next
  case (Cons ln lines)
  from Cons.prems(1) obtain f g where
    f: "indentation_line idx ln ps n = Inr f" and
    g: "check_indentation_from (idx + 1) lines ps n = Inr g" and fg: "found = f @ g"
    by (auto split: sum.splits)
  from Cons.prems(2) fg have "i \<in> set f \<or> i \<in> set g" by simp
  then show ?case
  proof
    assume "i \<in> set f"
    from indentation_line_message[OF f this] show ?thesis by simp
  next
    assume "i \<in> set g"
    from Cons.IH[OF g this] show ?thesis by simp
  qed
qed

lemma trailing_message:
  "i \<in> set (check_trailing_whitespace_from idx lines) \<Longrightarrow> message i \<noteq> ''Missing final newline''"
  by (induction lines arbitrary: idx) (auto simp: trailing_line_def split: if_splits)

lemma block_token_message:
  "i \<in> set (snd (block_token idx raw t st)) \<Longrightarrow> message i \<noteq> ''Missing final newline''"
  by (auto simp: block_token_def split: option.splits if_splits prod.splits)

lemma block_tokens_message:
  "i \<in> set (snd (block_tokens idx raw ts st)) \<Longrightarrow> message i \<noteq> ''Missing final newline''"
proof (induction ts arbitrary: st)
  case Nil
  then show ?case by simp
next
  case (Cons t ts)
  obtain s1 f where 1: "block_token idx raw t st = (s1, f)" by (cases "block_token idx raw t st")
  obtain s2 g where 2: "block_tokens idx raw ts s1 = (s2, g)" by (cases "block_tokens idx raw ts s1")
  from Cons.prems have "i \<in> set f \<or> i \<in> set g" by (simp add: 1 2)
  then show ?case
    using block_token_message[of i idx raw t st] Cons.IH[of s1] by (auto simp: 1 2)
qed

lemma block_lines_message:
  "i \<in> set (snd (block_lines idx lines st)) \<Longrightarrow> message i \<noteq> ''Missing final newline''"
proof (induction lines arbitrary: idx st)
  case Nil
  then show ?case by simp
next
  case (Cons raw lines)
  let ?ts = "tokenize (strip_comments raw)"
  obtain s1 f where 1: "block_tokens idx raw ?ts st = (s1, f)" by (cases "block_tokens idx raw ?ts st")
  obtain s2 g where 2: "block_lines (idx + 1) lines s1 = (s2, g)" by (cases "block_lines (idx + 1) lines s1")
  from Cons.prems have "i \<in> set f \<or> i \<in> set g" by (simp add: 1 2 Let_def)
  then show ?case
    using block_tokens_message[of i idx raw ?ts st] Cons.IH[of "idx + 1" s1] by (auto simp: 1 2)
qed

lemma block_balance_message:
  "i \<in> set (check_block_balance lines) \<Longrightarrow> message i \<noteq> ''Missing final newline''"
proof -
  assume a: "i \<in> set (check_block_balance lines)"
  obtain s f where 1: "block_lines 1 lines [] = (s, f)" by (cases "block_lines 1 lines []")
  from a have "i \<in> set f \<or> i \<in> unclosed_issue ` set s" by (simp add: check_block_balance_def 1)
  then show ?thesis
  proof
    assume "i \<in> set f"
    then show ?thesis using block_lines_message[of i 1 lines "[]"] by (simp add: 1)
  next
    assume "i \<in> unclosed_issue ` set s"
    then show ?thesis by (auto simp: unclosed_issue_def)
  qed
qed

lemma filter_none: "(\<And>x. x \<in> set xs \<Longrightarrow> \<not> P x) \<Longrightarrow> filter P xs = []"
  by (simp add: filter_empty_conv)

lemma final_newline_filter:
  "filter (\<lambda>i. message i = ''Missing final newline'') (final_newline_issues source)
     = final_newline_issues source"
  by (simp add: final_newline_issues_def)




subsection \<open>Trailing whitespace\<close>

lemma rstrip_length: "length (rstrip cs s) \<le> length s"
  using length_dropWhile_le[of "\<lambda>c. c \<in> set cs" "rev s"] by (simp add: rstrip_def)

lemma rstrip_neq_iff: "rstrip cs s \<noteq> s \<longleftrightarrow> length (rstrip cs s) < length s"
proof
  assume "rstrip cs s \<noteq> s"
  have "length (rstrip cs s) \<noteq> length s"
  proof
    assume e: "length (rstrip cs s) = length s"
    have "rev s = takeWhile (\<lambda>c. c \<in> set cs) (rev s) @ dropWhile (\<lambda>c. c \<in> set cs) (rev s)"
      by simp
    then have "length (rev s) = length (takeWhile (\<lambda>c. c \<in> set cs) (rev s))
                 + length (dropWhile (\<lambda>c. c \<in> set cs) (rev s))"
      by (metis length_append)
    with e have "takeWhile (\<lambda>c. c \<in> set cs) (rev s) = []" by (simp add: rstrip_def)
    then have "dropWhile (\<lambda>c. c \<in> set cs) (rev s) = rev s"
      by (metis append_Nil takeWhile_dropWhile_id)
    then have "rstrip cs s = s" by (simp add: rstrip_def)
    with \<open>rstrip cs s \<noteq> s\<close> show False by simp
  qed
  with rstrip_length[of cs s] show "length (rstrip cs s) < length s" by linarith
next
  assume "length (rstrip cs s) < length s"
  then show "rstrip cs s \<noteq> s" by auto
qed

lemma rstrip_idem: "rstrip cs (rstrip cs s) = rstrip cs s"
  by (simp add: rstrip_def)

lemma rstrip_tail:
  "\<exists>tail. s = rstrip cs s @ tail \<and> set tail \<subseteq> set cs
         \<and> (rstrip cs s = [] \<or> last (rstrip cs s) \<notin> set cs)"
proof -
  let ?P = "\<lambda>c. c \<in> set cs"
  have "s = rev (dropWhile ?P (rev s)) @ rev (takeWhile ?P (rev s))"
    by (metis rev_append rev_rev_ident takeWhile_dropWhile_id)
  then have 1: "s = rstrip cs s @ rev (takeWhile ?P (rev s))" by (simp only: rstrip_def)
  have 2: "set (rev (takeWhile ?P (rev s))) \<subseteq> set cs"
    using set_takeWhileD[of _ ?P "rev s"] by auto
  have 3: "rstrip cs s = [] \<or> last (rstrip cs s) \<notin> set cs"
  proof (cases "dropWhile ?P (rev s) = []")
    case True then show ?thesis by (simp add: rstrip_def)
  next
    case False
    then have "\<not> ?P (hd (dropWhile ?P (rev s)))" by (rule hd_dropWhile)
    then show ?thesis using False by (simp add: rstrip_def last_rev)
  qed
  from 1 2 3 show ?thesis by blast
qed

lemma trailing_from_enumerate:
  "check_trailing_whitespace_from idx lines =
     concat (map (\<lambda>(i, ln). trailing_line (idx + int i) ln) (enumerate 0 lines))"
proof (induction lines arbitrary: idx)
  case Nil
  show ?case by simp
next
  case (Cons ln lines)
  have "enumerate (Suc 0) lines = map (apfst Suc) (enumerate 0 lines)"
    by (rule enumerate_Suc_eq)
  then show ?case
    by (simp add: Cons[of "idx + 1"] comp_def case_prod_unfold add.assoc)
qed

lemma trailing_stripped:
  "check_trailing_whitespace_from idx (map (rstrip [SP, TAB]) lines) = []"
  by (induction lines arbitrary: idx) (simp_all add: trailing_line_def rstrip_idem)

subsection \<open>The stripper against the specification's automaton\<close>







section \<open>Properties\<close>

text \<open>C1: when the word tokens of the source, read line after line from the code-only
  view of each line, form a balanced sequence (every opening keyword \<^verbatim>\<open>function\<close>,
  \<^verbatim>\<open>do\<close>, \<^verbatim>\<open>then\<close>, \<^verbatim>\<open>repeat\<close> closed by its own closer in nested order, at any depth,
  other words in between), the block-balance check yields no issue at all.\<close>

theorem balanced_blocks_no_syntax_issue:
  "balanced (source_tokens lines) \<Longrightarrow> check_block_balance lines = []"
  using balanced_run[OF _ tokens_of_occurrences, of lines 1 "[]"]
  by (simp add: check_block_balance_def block_lines_run)

theorem balanced_blocks_no_syntax_issue_witness:
  "balanced (source_tokens [''function f()'', ''if x then return end -- end'', ''end''])
   \<and> check_block_balance [''function f()'', ''if x then return end -- end'', ''end''] = []"
proof -
  have toks: "source_tokens [''function f()'', ''if x then return end -- end'', ''end''] =
      [''function'', ''f'', ''if'', ''x'', ''then'', ''return'', ''end'', ''end'']"
    by (simp add: source_tokens_def strip_comments_def strip_loop_from tokenize_def isalpha_def)
  have w: "\<And>ts. balanced ts \<Longrightarrow> balanced (''return'' # ts)" "\<And>ts. balanced ts \<Longrightarrow> balanced (''f'' # ts)"
    "\<And>ts. balanced ts \<Longrightarrow> balanced (''if'' # ts)" "\<And>ts. balanced ts \<Longrightarrow> balanced (''x'' # ts)"
    by (rule balanced_word; simp add: BLOCK_PAIRS_def BLOCK_ENDINGS_def)+
  have inner: "balanced (''then'' # [''return''] @ ''end'' # [])"
    by (rule balanced_block) (simp_all add: BLOCK_PAIRS_def w balanced_empty)
  have "balanced (''function'' # [''f'', ''if'', ''x'', ''then'', ''return'', ''end''] @ ''end'' # [])"
  proof (rule balanced_block)
    show "BLOCK_PAIRS ''function'' = Some ''end''" by (simp add: BLOCK_PAIRS_def)
    show "balanced [''f'', ''if'', ''x'', ''then'', ''return'', ''end'']" using inner by (simp add: w)
    show "balanced []" by (rule balanced_empty)
  qed
  then have b: "balanced (source_tokens [''function f()'', ''if x then return end -- end'', ''end''])"
    by (simp only: toks append_Cons append_Nil)
  show ?thesis using b balanced_blocks_no_syntax_issue[OF b] by simp
qed






text \<open>C4: after all lines, the issues \<^verbatim>\<open>Unclosed block expecting '<expected>'\<close> are exactly
  one per frame left on the stack, at the frame's opening line and column 1, in stack
  order (oldest first), and they come after every issue found during the scan. A source
  whose only keyword is one opening keyword yields exactly that one issue, at the line
  of the keyword.\<close>

theorem unclosed_blocks_reported:
  "filter (\<lambda>i. take 8 (message i) = ''Unclosed'') (check_block_balance lines)
     = map (\<lambda>(expected, start_line).
             \<lparr>line = start_line, column = 1,
              message = ''Unclosed block expecting '' @ [SQ] @ expected @ [SQ], code = ''SYNTAX''\<rparr>)
           (fst (block_lines 1 lines []))
   \<and> check_block_balance lines
     = snd (block_lines 1 lines []) @
       map (\<lambda>(expected, start_line).
             \<lparr>line = start_line, column = 1,
              message = ''Unclosed block expecting '' @ [SQ] @ expected @ [SQ], code = ''SYNTAX''\<rparr>)
           (fst (block_lines 1 lines []))
   \<and> (keyword_tokens lines = [(k, opener)] \<and> BLOCK_PAIRS opener = Some closer \<longrightarrow>
        check_block_balance lines =
          [\<lparr>line = k, column = 1,
            message = ''Unclosed block expecting '' @ [SQ] @ closer @ [SQ], code = ''SYNTAX''\<rparr>])"
proof -
  have u: "unclosed_issue = (\<lambda>(expected, start_line).
             \<lparr>line = start_line, column = 1,
              message = ''Unclosed block expecting '' @ [SQ] @ expected @ [SQ], code = ''SYNTAX''\<rparr>)"
    by (rule ext) (simp add: unclosed_issue_def)
  have a: "check_block_balance lines = snd (block_lines 1 lines []) @ map unclosed_issue (fst (block_lines 1 lines []))"
    by (simp add: check_block_balance_def split: prod.splits)
  show ?thesis
    using unclosed_filter[of lines] a lone_opener[of lines k opener closer]
    by (simp add: u)
qed

theorem unclosed_blocks_reported_witness:
  "keyword_tokens [''x = 1'', ''if x then'', ''  y = 2''] = [(2, ''then'')]
   \<and> BLOCK_PAIRS ''then'' = Some ''end''
   \<and> check_block_balance [''x = 1'', ''if x then'', ''  y = 2''] =
       [\<lparr>line = 2, column = 1,
         message = ''Unclosed block expecting '' @ [SQ] @ ''end'' @ [SQ], code = ''SYNTAX''\<rparr>]"
proof -
  have k: "keyword_tokens [''x = 1'', ''if x then'', ''  y = 2''] = [(2, ''then'')]"
    by (simp add: keyword_tokens_def line_occurrences_def strip_comments_def strip_loop_from
        tokenize_def isalpha_def is_keyword_def BLOCK_PAIRS_def BLOCK_ENDINGS_def)
  have p: "BLOCK_PAIRS ''then'' = Some ''end''" by (simp add: BLOCK_PAIRS_def)
  have "keyword_tokens [''x = 1'', ''if x then'', ''  y = 2''] = [(2, ''then'')]
        \<and> BLOCK_PAIRS ''then'' = Some ''end'' \<longrightarrow>
        check_block_balance [''x = 1'', ''if x then'', ''  y = 2''] =
          [\<lparr>line = 2, column = 1,
            message = ''Unclosed block expecting '' @ [SQ] @ ''end'' @ [SQ], code = ''SYNTAX''\<rparr>]"
    by (rule unclosed_blocks_reported[THEN conjunct2, THEN conjunct2])
  then show ?thesis using k p by blast
qed

text \<open>C5: text after a comment marker or inside a string literal causes no block-balance
  and no indentation issue. For a line whose text before the marker or the literal ends outside of any
  string: the text after \<^verbatim>\<open>--\<close> changes neither the block-balance issues
  nor the indentation issues of the source; the body of a quoted literal (with its
  backslash escapes) can be replaced by any other body, also the empty one, without
  changing the indentation issues or the line, message and code of any block-balance
  issue. The lines \<^verbatim>\<open>-- then\<close> and \<^verbatim>\<open>x = "end"\<close> give no issue.\<close>

theorem keyword_text_in_comment_or_string:
  assumes "ends_outside_string None pre"
  shows "check_block_balance (before @ (pre @ ''--'' @ cmt) # after)
           = check_block_balance (before @ (pre @ ''--'') # after)
       \<and> check_indentation (before @ (pre @ ''--'' @ cmt) # after) prefer_spaces indent_size
           = check_indentation (before @ (pre @ ''--'') # after) prefer_spaces indent_size
       \<and> ((q = DQ \<or> q = SQ) \<and> string_body q body \<and> string_body q body' \<longrightarrow>
            map uncolumn (check_block_balance (before @ (pre @ q # body @ q # rest) # after))
              = map uncolumn (check_block_balance (before @ (pre @ q # body' @ q # rest) # after))
          \<and> check_indentation (before @ (pre @ q # body @ q # rest) # after) prefer_spaces indent_size
              = check_indentation (before @ (pre @ q # body' @ q # rest) # after) prefer_spaces indent_size)"
proof (intro conjI impI)
  show "check_block_balance (before @ (pre @ ''--'' @ cmt) # after)
           = check_block_balance (before @ (pre @ ''--'') # after)"
    by (rule check_block_balance_comment[OF assms])
  show "check_indentation (before @ (pre @ ''--'' @ cmt) # after) prefer_spaces indent_size
           = check_indentation (before @ (pre @ ''--'') # after) prefer_spaces indent_size"
    using check_indentation_tail[of DASH before pre "DASH # cmt" after prefer_spaces indent_size "[DASH]"]
    by simp
next
  assume h: "(q = DQ \<or> q = SQ) \<and> string_body q body \<and> string_body q body'"
  then have q: "q = DQ \<or> q = SQ" and b: "string_body q body" and b': "string_body q body'" by auto
  have "tokenize (strip_comments (pre @ q # body @ q # rest))
      = tokenize (strip_comments (pre @ q # body' @ q # rest))"
    using tokens_prefix_string[OF q b b' assms, of "[]" rest]
    by (simp add: tokenize_def strip_comments_def strip_loop_from)
  then show "map uncolumn (check_block_balance (before @ (pre @ q # body @ q # rest) # after))
              = map uncolumn (check_block_balance (before @ (pre @ q # body' @ q # rest) # after))"
    by (intro check_block_balance_uncolumn) simp
  have "q \<noteq> SP" "q \<noteq> TAB" using q by auto
  then show "check_indentation (before @ (pre @ q # body @ q # rest) # after) prefer_spaces indent_size
              = check_indentation (before @ (pre @ q # body' @ q # rest) # after) prefer_spaces indent_size"
    by (rule check_indentation_tail)
qed

theorem keyword_text_in_comment_or_string_witness:
  "ends_outside_string None ''x = '' \<and> ends_outside_string None [] \<and> string_body DQ ''end'' \<and> string_body DQ ''''
   \<and> check_block_balance [''-- then''] = []
   \<and> check_indentation [''-- then''] True 4 = Inr []
   \<and> check_block_balance [''x = '' @ DQ # ''end'' @ [DQ]] = []
   \<and> check_indentation [''x = '' @ DQ # ''end'' @ [DQ]] True 4 = Inr []"
proof -
  have p: "ends_outside_string None ''x = ''" "ends_outside_string None []" by simp_all
  have b: "string_body DQ ''end''" "string_body DQ ''''" by simp_all
  have c0: "check_block_balance [''--''] = []"
    by (simp add: check_block_balance_def strip_comments_def strip_loop_from tokenize_def)
  have i0: "check_indentation [''--''] True 4 = Inr []"
    by (simp add: check_indentation_def indentation_line_def lstrip_def remove_char_def)
  have c1: "check_block_balance [''x = '' @ [DQ, DQ]] = []"
    by (simp add: check_block_balance_def strip_comments_def strip_loop_from tokenize_def
        isalpha_def block_token_def BLOCK_PAIRS_def BLOCK_ENDINGS_def)
  have i1: "check_indentation [''x = '' @ [DQ, DQ]] True 4 = Inr []"
    by (simp add: check_indentation_def indentation_line_def lstrip_def remove_char_def)
  show ?thesis
    using p b c0 i0 c1 i1
      keyword_text_in_comment_or_string[OF p(2), of "[]" "'' then''" "[]" True 4 DQ "[]" "[]" "[]"]
      keyword_text_in_comment_or_string[OF p(1), of "[]" "[]" "[]" True 4 DQ "''end''" "[]" "[]"]
    by simp
qed

text \<open>C6: with a valid indent size (not zero, so that the analysis returns), the result
  holds a \<^verbatim>\<open>Missing final newline\<close> issue if and only if the source is non-empty and its
  last character is not a newline; it is then the only such issue, with code FORMAT, at
  the last line of the source and one column past the end of that line. A non-empty
  source always has a last line, so the fallback to line 1 is never taken.\<close>

theorem missing_final_newline:
  assumes "indent_size \<noteq> 0"
  shows "\<exists>issues. analyze_source source prefer_spaces indent_size = Inr issues
           \<and> filter (\<lambda>i. message i = ''Missing final newline'') issues =
               (if source \<noteq> [] \<and> last source \<noteq> LF then
                  [\<lparr>line = int (length (splitlines source)),
                    column = int (length (last (splitlines source))) + 1,
                    message = ''Missing final newline'', code = ''FORMAT''\<rparr>]
                else [])
           \<and> (source \<noteq> [] \<longrightarrow> splitlines source \<noteq> [])"
proof -
  let ?P = "\<lambda>i. message i = ''Missing final newline''"
  from check_indentation_from_total[OF assms] obtain found where
    f: "check_indentation (splitlines source) prefer_spaces indent_size = Inr found"
    unfolding check_indentation_def by blast
  have 1: "filter ?P found = []"
    by (rule filter_none) (use check_indentation_from_message f in \<open>auto simp: check_indentation_def\<close>)
  have 2: "filter ?P (check_trailing_whitespace (splitlines source)) = []"
    by (rule filter_none) (use trailing_message in \<open>auto simp: check_trailing_whitespace_def\<close>)
  have 3: "filter ?P (check_block_balance (splitlines source)) = []"
    by (rule filter_none) (use block_balance_message in auto)
  have "analyze_source source prefer_spaces indent_size =
      Inr (final_newline_issues source @ found @ check_trailing_whitespace (splitlines source)
           @ check_block_balance (splitlines source))"
    by (simp add: analyze_source_concat f)
  moreover have "filter ?P (final_newline_issues source @ found
        @ check_trailing_whitespace (splitlines source) @ check_block_balance (splitlines source))
      = final_newline_issues source"
    by (simp only: filter_append 1 2 3 final_newline_filter append_Nil2)
  ultimately show ?thesis
    using splitlines_nonempty[of source] by (simp add: final_newline_issues_def)
qed

theorem missing_final_newline_witness:
  "(4::int) \<noteq> 0
   \<and> analyze_source ''x = 1'' True 4 =
       Inr [\<lparr>line = 1, column = 6, message = ''Missing final newline'', code = ''FORMAT''\<rparr>]
   \<and> analyze_source (''x = 1'' @ [LF]) True 4 = Inr []"
proof -
  have n: "(4::int) \<noteq> 0" by simp
  have a: "analyze_source ''x = 1'' True 4 =
       Inr [\<lparr>line = 1, column = 6, message = ''Missing final newline'', code = ''FORMAT''\<rparr>]"
    by code_simp
  have b: "analyze_source (''x = 1'' @ [LF]) True 4 = Inr []"
    by code_simp
  show ?thesis
    using n a b missing_final_newline[OF n, of "''x = 1''" True]
    by simp
qed



text \<open>C8: the trailing-whitespace check reports a line exactly when removing its
  trailing spaces and tabs makes it shorter, with code FORMAT and the length of the line
  as column; the issues of a source are those of its lines, numbered from 1, in order.
  On lines whose trailing spaces and tabs have been removed it reports nothing.
  Here \<^verbatim>\<open>rstrip\<close> removes exactly the longest suffix made of the given characters.\<close>

theorem trailing_whitespace_check:
  "trailing_line idx ln =
     (if length (rstrip [SP, TAB] ln) < length ln then
        [\<lparr>line = idx, column = int (length ln), message = ''Trailing whitespace'',
          code = ''FORMAT''\<rparr>]
      else [])
   \<and> trailing_line idx (rstrip [SP, TAB] ln) = []
   \<and> check_trailing_whitespace lines =
       concat (map (\<lambda>(i, ln). trailing_line (int i + 1) ln) (enumerate 0 lines))
   \<and> check_trailing_whitespace (map (rstrip [SP, TAB]) lines) = []
   \<and> (\<exists>tail. ln = rstrip [SP, TAB] ln @ tail \<and> set tail \<subseteq> {SP, TAB}
         \<and> (rstrip [SP, TAB] ln = [] \<or> last (rstrip [SP, TAB] ln) \<notin> {SP, TAB}))"
proof -
  have 1: "trailing_line idx ln =
     (if length (rstrip [SP, TAB] ln) < length ln then
        [\<lparr>line = idx, column = int (length ln), message = ''Trailing whitespace'',
          code = ''FORMAT''\<rparr>]
      else [])"
    unfolding trailing_line_def rstrip_neq_iff by (rule refl)
  have 2: "trailing_line idx (rstrip [SP, TAB] ln) = []"
    by (simp add: trailing_line_def rstrip_idem)
  have 3: "check_trailing_whitespace lines =
       concat (map (\<lambda>(i, ln). trailing_line (int i + 1) ln) (enumerate 0 lines))"
    unfolding check_trailing_whitespace_def trailing_from_enumerate
    by (simp add: add.commute)
  have 4: "check_trailing_whitespace (map (rstrip [SP, TAB]) lines) = []"
    unfolding check_trailing_whitespace_def by (rule trailing_stripped)
  have 5: "\<exists>tail. ln = rstrip [SP, TAB] ln @ tail \<and> set tail \<subseteq> {SP, TAB}
         \<and> (rstrip [SP, TAB] ln = [] \<or> last (rstrip [SP, TAB] ln) \<notin> {SP, TAB})"
    using rstrip_tail[of ln "[SP, TAB]"] by simp
  from 1 2 3 4 5 show ?thesis by blast
qed

theorem trailing_whitespace_check_witness:
  "check_trailing_whitespace [''x = 1  '', ''y''] =
     [\<lparr>line = 1, column = 7, message = ''Trailing whitespace'', code = ''FORMAT''\<rparr>]
   \<and> check_trailing_whitespace (map (rstrip [SP, TAB]) [''x = 1  '', ''y'']) = []"
proof -
  have r: "rstrip [SP, TAB] ''x = 1  '' = ''x = 1''" "rstrip [SP, TAB] ''y'' = ''y''"
    by (simp_all add: rstrip_def)
  have e: "enumerate 0 [''x = 1  '', ''y''] = [(0, ''x = 1  ''), (1, ''y'')]"
    by (simp add: enumerate_eq_zip upt_rec)
  show ?thesis
    using trailing_whitespace_check[of 1 "''x = 1  ''" "[''x = 1  '', ''y'']"]
      trailing_whitespace_check[of 2 "''y''" "[''x = 1  '', ''y'']"]
    by (simp add: r e)
qed

text \<open>C9: the result of \<^verbatim>\<open>analyze_source\<close> is the concatenation, in this order, of the
  final-newline finding, the indentation issues, the trailing-whitespace issues and the
  block-balance issues, each in the order its check yields them, with no sorting by
  position; with a valid indent size the indentation check returns, so the analysis
  returns this list. When the indentation check raises (indent size zero), so does the
  analysis.\<close>

theorem analyze_source_order:
  "analyze_source source prefer_spaces indent_size =
     (case check_indentation (splitlines source) prefer_spaces indent_size of
        Inl e \<Rightarrow> Inl e
      | Inr found \<Rightarrow>
          Inr (final_newline_issues source @ found
               @ check_trailing_whitespace (splitlines source)
               @ check_block_balance (splitlines source)))
   \<and> (indent_size \<noteq> 0 \<longrightarrow>
        (\<exists>found. check_indentation (splitlines source) prefer_spaces indent_size = Inr found))"
  using analyze_source_concat[of source prefer_spaces indent_size]
    check_indentation_from_total[of indent_size 1 "splitlines source" prefer_spaces]
  by (simp add: check_indentation_def)

theorem analyze_source_order_witness:
  "(4::int) \<noteq> 0
   \<and> analyze_source (''end '' @ [LF, TAB] @ ''x'') True 4 =
       Inr (final_newline_issues (''end '' @ [LF, TAB] @ ''x'')
            @ [\<lparr>line = 2, column = 1, message = ''Tab indentation found (expected spaces)'',
                 code = ''INDENT''\<rparr>]
            @ check_trailing_whitespace (splitlines (''end '' @ [LF, TAB] @ ''x''))
            @ check_block_balance (splitlines (''end '' @ [LF, TAB] @ ''x'')))
   \<and> analyze_source (''end '' @ [LF, TAB] @ ''x'') True 4 =
       Inr [\<lparr>line = 2, column = 3, message = ''Missing final newline'', code = ''FORMAT''\<rparr>,
            \<lparr>line = 2, column = 1, message = ''Tab indentation found (expected spaces)'',
              code = ''INDENT''\<rparr>,
            \<lparr>line = 1, column = 4, message = ''Trailing whitespace'', code = ''FORMAT''\<rparr>,
            \<lparr>line = 1, column = 1, message = ''Unexpected '' @ [SQ] @ ''end'' @ [SQ],
              code = ''SYNTAX''\<rparr>]"
proof -
  have n: "(4::int) \<noteq> 0" by simp
  have i: "check_indentation (splitlines (''end '' @ [LF, TAB] @ ''x'')) True 4 =
      Inr [\<lparr>line = 2, column = 1, message = ''Tab indentation found (expected spaces)'',
            code = ''INDENT''\<rparr>]"
    by code_simp
  have v: "analyze_source (''end '' @ [LF, TAB] @ ''x'') True 4 =
       Inr [\<lparr>line = 2, column = 3, message = ''Missing final newline'', code = ''FORMAT''\<rparr>,
            \<lparr>line = 2, column = 1, message = ''Tab indentation found (expected spaces)'',
              code = ''INDENT''\<rparr>,
            \<lparr>line = 1, column = 4, message = ''Trailing whitespace'', code = ''FORMAT''\<rparr>,
            \<lparr>line = 1, column = 1, message = ''Unexpected '' @ [SQ] @ ''end'' @ [SQ],
              code = ''SYNTAX''\<rparr>]"
    by code_simp
  have o: "analyze_source (''end '' @ [LF, TAB] @ ''x'') True 4 =
       Inr (final_newline_issues (''end '' @ [LF, TAB] @ ''x'')
            @ [\<lparr>line = 2, column = 1, message = ''Tab indentation found (expected spaces)'',
                 code = ''INDENT''\<rparr>]
            @ check_trailing_whitespace (splitlines (''end '' @ [LF, TAB] @ ''x''))
            @ check_block_balance (splitlines (''end '' @ [LF, TAB] @ ''x'')))"
    using analyze_source_order[of "''end '' @ [LF, TAB] @ ''x''" True 4]
    by (simp only: i sum.case)
  show ?thesis using n o v by blast
qed

text \<open>C10: for the empty source, \<^verbatim>\<open>analyze_source\<close> returns the empty issue list, whatever
  the configuration (also with indent size zero): no final-newline, indentation,
  trailing-whitespace or block-balance issue.\<close>

theorem analyze_source_empty:
  "analyze_source [] prefer_spaces indent_size = Inr []"
  by (simp add: analyze_source_def splitlines_def check_indentation_def
      check_trailing_whitespace_def check_block_balance_def)

theorem analyze_source_empty_witness:
  "analyze_source [] True 4 = Inr [] \<and> analyze_source [] False 0 = Inr []"
  using analyze_source_empty[of True 4] analyze_source_empty[of False 0] by simp

end
